theory Spec2Isabelle
  imports Complex_Main
begin

section \<open>Shared types\<close>

text \<open>
  Identifiers (\<open>dimples.ID\<close>) are strings. Clock readings (\<open>time.time()\<close>, a float of
  seconds) and \<open>DateTime\<close> values are real numbers; the rounding of float addition is
  not part of the model.
\<close>

type_synonym ID = string
type_synonym timestamp = real

section \<open>Command history: \<open>HistoryManager\<close> in \<open>libs/av/tv_movie/client.py\<close>\<close>

text \<open>
  One entry is the dict built in \<open>add_command\<close>, with the keys \<open>sender\<close>, \<open>group\<close>,
  \<open>when\<close> and \<open>cmd\<close>. The manager's state is the list \<open>__commands\<close>; the lock only
  makes each method atomic, so a method is a function on that list.
\<close>

record history_entry =
  sender :: ID
  group_h :: "ID option"
  when_h :: timestamp
  cmd :: string

type_synonym HistoryManager = "history_entry list"

definition MAX_LENGTH :: nat where
  "MAX_LENGTH = 50"

definition HistoryManager_init :: HistoryManager where
  "HistoryManager_init = []"

definition commands :: "HistoryManager \<Rightarrow> history_entry list" where
  "commands h = h"

definition add_command :: "string \<Rightarrow> timestamp \<Rightarrow> ID \<Rightarrow> ID option \<Rightarrow> HistoryManager \<Rightarrow> HistoryManager" where
  "add_command c w s g h = h @ [\<lparr>sender = s, group_h = g, when_h = w, cmd = c\<rparr>]"

text \<open>A sequence of \<open>add_command\<close> calls, each given as \<open>(cmd, when, sender, group)\<close>.\<close>

fun add_commands :: "(string \<times> timestamp \<times> ID \<times> ID option) list \<Rightarrow> HistoryManager \<Rightarrow> HistoryManager" where
  "add_commands [] h = h"
| "add_commands ((c, w, s, g) # calls) h = add_commands calls (add_command c w s g h)"

section \<open>Failover dispatch: \<open>SearchBox._search\<close> in \<open>libs/av/tv_movie/client.py\<close>\<close>

text \<open>
  What \<open>await engine.search(task=task)\<close> does for the task being dispatched: it returns
  an integer code or raises. The \<open>Engine\<close> class is not part of these sources, so the
  engines are values of any type, and the functions \<open>search\<close> (the outcome of the call
  for each engine) and \<open>agent\<close> (its \<open>agent\<close> attribute) are parameters of the model.
\<close>

datatype search_result = Returned int | Raised

text \<open>
  Modelled from the spec: \<open>Engine.CANCELLED_CODE\<close> is declared in \<open>engine.py\<close>, which is
  not among the sources; the spec and the comment at the comparison give \<open>-205\<close>.
\<close>

definition CANCELLED_CODE :: int where
  "CANCELLED_CODE = - 205"

text \<open>\<open>self.service\<close> is the class name.\<close>

definition service :: string where
  "service = ''SearchBox''"

type_synonym request_ref = nat

record task =
  task_keywords :: string
  task_request :: request_ref

text \<open>
  The observable effects of one dispatch, in program order: each engine call, each
  call on the monitor and each \<open>respond_markdown\<close> of the box. Log lines are left out.
\<close>

datatype 'e event =
    EngineSearch 'e
  | ReportSuccess string string
  | ReportFailure string string
  | ReportCrash string
  | RespondMarkdown string request_ref

text \<open>\<open>_respond_204\<close>: the text is built line by line from the keyword history.\<close>

definition respond_204_text :: "string list option \<Rightarrow> string \<Rightarrow> string" where
  "respond_204_text history kw =
     (let history1 = (case history of None \<Rightarrow> [] | Some h \<Rightarrow> h);
          text0 = ''No contents for **'' @ [CHR 0x22] @ kw @ [CHR 0x22]
                    @ ''**, you can try the following keywords:'' @ [CHR 0x0A];
          text1 = text0 @ [CHR 0x0A] @ ''----'' @ [CHR 0x0A];
          text2 = foldl (\<lambda>t his. t @ ''- **'' @ his @ ''**'' @ [CHR 0x0A]) text1 history1;
          text3 = text2 @ [CHR 0x0A];
          text4 = text3 @ ''You can also input this command to scan TV channels:'' @ [CHR 0x0A]
      in text4 @ [CHR 0x0A] @ ''- **TV channels**'')"

definition respond_204 :: "string list option \<Rightarrow> string \<Rightarrow> request_ref \<Rightarrow> 'e event" where
  "respond_204 history kw req = RespondMarkdown (respond_204_text history kw) req"

text \<open>
  The \<open>try\<close>/\<open>except\<close> around the engine call: an exception of the engine becomes the
  code \<open>-500\<close>.
\<close>

definition code_of :: "search_result \<Rightarrow> int" where
  "code_of r = (case r of Returned c \<Rightarrow> c | Raised \<Rightarrow> - 500)"

text \<open>
  The \<open>while index < count\<close> loop. It leaves either through \<open>return False\<close> on the
  cancellation code, or with the final values of \<open>failed\<close> and \<open>index\<close> (after \<open>break\<close>
  or when the condition fails).
  \<open>all_engines ! index\<close> is read only under \<open>index < count\<close>, so it is in range.
\<close>

datatype 'e loop_exit =
    Cancelled "'e event list"
  | LoopDone nat nat "'e event list"

function search_loop ::
  "('e \<Rightarrow> search_result) \<Rightarrow> ('e \<Rightarrow> string) \<Rightarrow> 'e list \<Rightarrow> nat \<Rightarrow> nat \<Rightarrow> 'e event list \<Rightarrow> 'e loop_exit" where
  "search_loop search agent all_engines failed index evs =
     (let count = length all_engines in
      if index < count then
        (let engine = all_engines ! index;
             code = code_of (search engine);
             evs1 = evs @ [EngineSearch engine]
         in if code > 0 then LoopDone failed index (evs1 @ [ReportSuccess service (agent engine)])
            else if code = CANCELLED_CODE then Cancelled evs1
            else if code < 0 then
              search_loop search agent all_engines (failed + 1) (index + 1)
                (evs1 @ [ReportFailure service (agent engine)])
            else search_loop search agent all_engines failed (index + 1) evs1)
      else LoopDone failed index evs)"
  by pat_completeness auto
termination
  by (relation "measure (\<lambda>(search, agent, all_engines, failed, index, evs). length all_engines - index)") auto

declare search_loop.simps [simp del]

text \<open>\<open>list.pop(index)\<close> and \<open>list.insert(0, x)\<close>, for an index in range.\<close>

definition list_pop :: "'a list \<Rightarrow> nat \<Rightarrow> 'a \<times> 'a list" where
  "list_pop xs i = (xs ! i, take i xs @ drop (Suc i) xs)"

definition list_insert0 :: "'a \<Rightarrow> 'a list \<Rightarrow> 'a list" where
  "list_insert0 x xs = x # xs"

text \<open>
  \<open>SearchBox._search\<close> on the box's engine list: the returned flag, the list after the
  call and the effects. \<open>history\<close> is \<open>KeywordManager().keywords\<close>.
\<close>

definition SearchBox_search ::
  "('e \<Rightarrow> search_result) \<Rightarrow> ('e \<Rightarrow> string) \<Rightarrow> string list option \<Rightarrow> task \<Rightarrow> 'e list
     \<Rightarrow> bool \<times> 'e list \<times> 'e event list" where
  "SearchBox_search search agent history tsk all_engines =
     (let count = length all_engines in
      if count = 0 then (False, all_engines, [])
      else
        (case search_loop search agent all_engines 0 0 [] of
           Cancelled evs \<Rightarrow> (False, all_engines, evs)
         | LoopDone failed index evs \<Rightarrow>
             (let evs2 = (if index = count
                          then evs @ [respond_204 history (task_keywords tsk) (task_request tsk)]
                          else evs)
              in if failed = count then (False, all_engines, evs2 @ [ReportCrash service])
                 else if 0 < index \<and> index < count then
                   (let (engine, rest) = list_pop all_engines index
                    in (True, list_insert0 engine rest, evs2))
                 else (True, all_engines, evs2))))"

definition succeeds :: "('e \<Rightarrow> search_result) \<Rightarrow> 'e \<Rightarrow> bool" where
  "succeeds search e = (code_of (search e) > 0)"

definition cancels :: "('e \<Rightarrow> search_result) \<Rightarrow> 'e \<Rightarrow> bool" where
  "cancels search e = (code_of (search e) = CANCELLED_CODE)"

definition fails :: "('e \<Rightarrow> search_result) \<Rightarrow> 'e \<Rightarrow> bool" where
  "fails search e = (code_of (search e) < 0 \<and> code_of (search e) \<noteq> CANCELLED_CODE)"

text \<open>The effects of one loop iteration that neither succeeds nor is cancelled.\<close>

definition pass_events :: "('e \<Rightarrow> search_result) \<Rightarrow> ('e \<Rightarrow> string) \<Rightarrow> 'e \<Rightarrow> 'e event list" where
  "pass_events search agent e =
     (if code_of (search e) < 0 then [EngineSearch e, ReportFailure service (agent e)]
      else [EngineSearch e])"


text \<open>The engines a trace called, in call order.\<close>

fun searched :: "'e event list \<Rightarrow> 'e list" where
  "searched [] = []"
| "searched (EngineSearch e # evs) = e # searched evs"
| "searched (ev # evs) = searched evs"

text \<open>One line of the no-result text per keyword of the history.\<close>

definition suggestion_line :: "string \<Rightarrow> string" where
  "suggestion_line his = ''- **'' @ his @ ''**'' @ [CHR 0x0A]"

section \<open>Engine lists as objects: \<open>SearchClient\<close> and the boxes it creates\<close>

text \<open>
  Python lists are mutable objects reached through references, and \<open>_search\<close> mutates
  the list its box holds. The store maps each reference to the contents of its list
  object; \<open>next_ref\<close> is the first reference not yet given out.
\<close>

type_synonym ref = nat

record 'e store =
  cells :: "ref \<Rightarrow> 'e list"
  next_ref :: ref

text \<open>A new list object (\<open>[]\<close>, or the result of \<open>list.copy()\<close>).\<close>

definition new_list :: "'e list \<Rightarrow> 'e store \<Rightarrow> ref \<times> 'e store" where
  "new_list xs st =
     (next_ref st, st\<lparr>cells := (cells st)(next_ref st := xs), next_ref := Suc (next_ref st)\<rparr>)"

definition list_copy :: "ref \<Rightarrow> 'e store \<Rightarrow> ref \<times> 'e store" where
  "list_copy r st = new_list (cells st r) st"

text \<open>
  \<open>SearchClient\<close> keeps a reference to its engine list and \<open>SearchBox\<close> keeps the
  reference it was constructed with (\<open>self.__engines = engines\<close>).
\<close>

record search_client =
  client_engines :: ref

record search_box =
  box_identifier :: ID
  box_engines :: ref

definition SearchClient_init :: "'e store \<Rightarrow> search_client \<times> 'e store" where
  "SearchClient_init st = (let (r, st1) = new_list [] st in (\<lparr>client_engines = r\<rparr>, st1))"

definition add_engine :: "search_client \<Rightarrow> 'e \<Rightarrow> 'e store \<Rightarrow> 'e store" where
  "add_engine c engine st =
     st\<lparr>cells := (cells st)(client_engines c := cells st (client_engines c) @ [engine])\<rparr>"

definition new_box :: "search_client \<Rightarrow> ID \<Rightarrow> 'e store \<Rightarrow> search_box \<times> 'e store" where
  "new_box c identifier st =
     (let (engines, st1) = list_copy (client_engines c) st
      in (\<lparr>box_identifier = identifier, box_engines = engines\<rparr>, st1))"

text \<open>
  \<open>_search\<close> run by a box: \<open>all_engines\<close> and \<open>self.__engines\<close> are the same object, so
  the list computed by \<open>SearchBox_search\<close> is what that object holds afterwards.
\<close>

definition box_search ::
  "('e \<Rightarrow> search_result) \<Rightarrow> ('e \<Rightarrow> string) \<Rightarrow> string list option \<Rightarrow> task \<Rightarrow> search_box
     \<Rightarrow> 'e store \<Rightarrow> bool \<times> 'e store \<times> 'e event list" where
  "box_search search agent history tsk box st =
     (let (ret, engines, evs) = SearchBox_search search agent history tsk (cells st (box_engines box))
      in (ret, st\<lparr>cells := (cells st)(box_engines box := engines)\<rparr>, evs))"

text \<open>
  A client with the boxes it has created, and what can happen to it: an engine is
  added, a box is created, or the box at some position runs a dispatch.
\<close>

record 'e world =
  store :: "'e store"
  client :: search_client
  boxes :: "search_box list"

datatype 'e action =
    AddEngine 'e
  | NewBox ID
  | Dispatch nat "'e \<Rightarrow> search_result" "string list option" task

definition world_init :: "'e world" where
  "world_init =
     (let (c, st) = SearchClient_init \<lparr>cells = (\<lambda>r. []), next_ref = 0\<rparr>
      in \<lparr>store = st, client = c, boxes = []\<rparr>)"

fun step :: "('e \<Rightarrow> string) \<Rightarrow> 'e action \<Rightarrow> 'e world \<Rightarrow> 'e world" where
  "step agent (AddEngine engine) w = w\<lparr>store := add_engine (client w) engine (store w)\<rparr>"
| "step agent (NewBox identifier) w =
     (let (box, st) = new_box (client w) identifier (store w)
      in w\<lparr>store := st, boxes := boxes w @ [box]\<rparr>)"
| "step agent (Dispatch k search history tsk) w =
     (if k < length (boxes w)
      then w\<lparr>store := fst (snd (box_search search agent history tsk (boxes w ! k) (store w)))\<rparr>
      else w)"

fun run :: "('e \<Rightarrow> string) \<Rightarrow> 'e action list \<Rightarrow> 'e world \<Rightarrow> 'e world" where
  "run agent [] w = w"
| "run agent (a # as) w = run agent as (step agent a w)"

text \<open>References in use are below \<open>next_ref\<close>, and no two holders share one.\<close>

definition world_ok :: "'e world \<Rightarrow> bool" where
  "world_ok w =
     (client_engines (client w) < next_ref (store w)
      \<and> (\<forall>b \<in> set (boxes w). box_engines b < next_ref (store w))
      \<and> distinct (client_engines (client w) # map box_engines (boxes w)))"

section \<open>Chat sessions: \<open>ChatBox\<close> and \<open>ChatBoxPool\<close> in \<open>libs/chatgpt/fakeopen/client.py\<close>\<close>

text \<open>
  A \<open>ChatBox\<close> is an object with identity: the pool's set and dictionary hold
  references to it and \<open>ask\<close> changes it in place. \<open>box_expired\<close> gives the field
  \<open>__expired\<close> of each box object and \<open>next_box\<close> is the first reference not yet given
  out. The backend handle \<open>__gpt\<close> is not modelled; what it answers is an argument of
  \<open>ask\<close>.

  \<open>pool_map\<close> is the \<open>WeakValueDictionary\<close> and \<open>pool_boxes\<close> the set \<open>__boxes\<close>. The set
  holds the only lasting strong reference to a box (\<open>process\<close> keeps the one it gets
  from \<open>get_box\<close> for the length of one call), so a box object is alive exactly while
  it is in \<open>pool_boxes\<close>, and a weak entry whose box is no longer alive is gone.
\<close>

type_synonym box_ref = nat

record pool_state =
  box_expired :: "box_ref \<Rightarrow> timestamp"
  next_box :: box_ref
  pool_map :: "ID \<rightharpoonup> box_ref"
  pool_boxes :: "box_ref set"
  next_purge_time :: timestamp

definition EXPIRES :: timestamp where
  "EXPIRES = 36000"

text \<open>\<open>ChatBox.__init__\<close>; \<open>now\<close> is the reading of \<open>time.time()\<close>.\<close>

definition ChatBox_init :: "timestamp \<Rightarrow> pool_state \<Rightarrow> box_ref \<times> pool_state" where
  "ChatBox_init now st =
     (next_box st,
      st\<lparr>box_expired := (box_expired st)(next_box st := now + EXPIRES),
         next_box := Suc (next_box st)\<rparr>)"

definition is_expired :: "box_ref \<Rightarrow> timestamp \<Rightarrow> pool_state \<Rightarrow> bool" where
  "is_expired box now st = (now > box_expired st box)"

definition prepare :: "box_ref \<Rightarrow> timestamp \<Rightarrow> pool_state \<Rightarrow> bool \<times> pool_state" where
  "prepare box now st = (True, st\<lparr>box_expired := (box_expired st)(box := now + EXPIRES)\<rparr>)"

text \<open>
  \<open>ChatBox.ask\<close>: \<open>reply\<close> is what \<open>self.__gpt.ask(question=question)\<close> returns, an
  answer or \<open>None\<close>. Without the \<open>if\<close> branch the method returns \<open>None\<close>.
\<close>

definition ask :: "box_ref \<Rightarrow> string \<Rightarrow> timestamp \<Rightarrow> string option \<Rightarrow> pool_state \<Rightarrow> string option \<times> pool_state" where
  "ask box question now reply st =
     (let (ok, st1) = prepare box now st
      in if ok then (reply, st1) else (None, st1))"

definition ChatBoxPool_init :: pool_state where
  "ChatBoxPool_init =
     \<lparr>box_expired = (\<lambda>b. 0), next_box = 0, pool_map = Map.empty, pool_boxes = {},
      next_purge_time = 0\<rparr>"

text \<open>\<open>self.__map.get(identifier)\<close> on the weak dictionary.\<close>

definition weak_get :: "pool_state \<Rightarrow> ID \<Rightarrow> box_ref option" where
  "weak_get st identifier =
     (case pool_map st identifier of
        None \<Rightarrow> None
      | Some box \<Rightarrow> if box \<in> pool_boxes st then Some box else None)"

text \<open>\<open>ChatBoxPool.__new_box\<close> always returns the box it constructs.\<close>

definition new_chat_box :: "timestamp \<Rightarrow> pool_state \<Rightarrow> box_ref option \<times> pool_state" where
  "new_chat_box now st = (let (box, st1) = ChatBox_init now st in (Some box, st1))"

definition get_box :: "ID \<Rightarrow> timestamp \<Rightarrow> pool_state \<Rightarrow> box_ref option \<times> pool_state" where
  "get_box identifier now st =
     (case weak_get st identifier of
        Some box \<Rightarrow> (Some box, st)
      | None \<Rightarrow>
          (case new_chat_box now st of
             (None, st1) \<Rightarrow> (None, st1)
           | (Some box, st1) \<Rightarrow>
               (Some box,
                st1\<lparr>pool_map := (pool_map st1)(identifier \<mapsto> box),
                    pool_boxes := insert box (pool_boxes st1)\<rparr>)))"

text \<open>
  \<open>ChatBoxPool.purge\<close>. The loop runs over a copy of the set and discards every box
  for which \<open>is_expired\<close> holds; the order of the iteration does not matter.
\<close>

definition purge :: "timestamp \<Rightarrow> pool_state \<Rightarrow> bool \<times> pool_state" where
  "purge now st =
     (if now < next_purge_time st then (False, st)
      else
        (let st1 = st\<lparr>next_purge_time := now + 60\<rparr>;
             boxes_copy = pool_boxes st1
         in (True, st1\<lparr>pool_boxes := pool_boxes st1 - {box \<in> boxes_copy. is_expired box now st1}\<rparr>)))"

text \<open>Calls on the pool and on its boxes, in any order.\<close>

datatype pool_op =
    GetBox ID timestamp
  | Ask box_ref string timestamp "string option"
  | Purge timestamp

fun pool_step :: "pool_op \<Rightarrow> pool_state \<Rightarrow> pool_state" where
  "pool_step (GetBox identifier now) st = snd (get_box identifier now st)"
| "pool_step (Ask box question now reply) st = snd (ask box question now reply st)"
| "pool_step (Purge now) st = snd (purge now st)"

fun pool_run :: "pool_op list \<Rightarrow> pool_state \<Rightarrow> pool_state" where
  "pool_run [] st = st"
| "pool_run (op # ops) st = pool_run ops (pool_step op st)"

text \<open>Every box the pool refers to has been constructed.\<close>

definition pool_ok :: "pool_state \<Rightarrow> bool" where
  "pool_ok st = (\<forall>box. box \<in> pool_boxes st \<or> box \<in> ran (pool_map st) \<longrightarrow> box < next_box st)"

text \<open>
  What the pool keeps for a user once \<open>get_box\<close> has returned \<open>box\<close> for it: the box
  has been constructed, and as long as it is in the live set the user's entry is this
  box.
\<close>

definition holds_box :: "pool_state \<Rightarrow> ID \<Rightarrow> box_ref \<Rightarrow> bool" where
  "holds_box st user box =
     (box < next_box st \<and> (box \<in> pool_boxes st \<longrightarrow> pool_map st user = Some box))"

section \<open>Task queue and worker: \<open>ChatClient\<close> in \<open>libs/chatgpt/fakeopen/client.py\<close>\<close>

text \<open>
  Modelled from the spec: \<open>ChatRequest\<close>, \<open>ChatTask\<close> and \<open>ChatTaskPool\<close> are imported
  from \<open>..chat\<close>, which is not among the sources. A request holds the question and the
  user; a task wraps a request and its callback; the pool is an unbounded FIFO queue
  (\<open>add_task\<close> enqueues at the tail, \<open>pop_task\<close> takes the head or returns \<open>None\<close>);
  \<open>chat_response\<close> invokes the task's callback with the answer and the request.
\<close>

record chat_request =
  req_question :: string
  req_identifier :: ID

type_synonym callback_ref = nat

record chat_task =
  ct_request :: chat_request
  ct_callback :: callback_ref

type_synonym ChatTaskPool = "chat_task list"

definition add_task :: "chat_task \<Rightarrow> ChatTaskPool \<Rightarrow> ChatTaskPool" where
  "add_task t q = q @ [t]"

definition pop_task :: "ChatTaskPool \<Rightarrow> chat_task option \<times> ChatTaskPool" where
  "pop_task q = (case q of [] \<Rightarrow> (None, []) | t # rest \<Rightarrow> (Some t, rest))"

text \<open>One invocation of a callback: the callback, the answer and the request passed.\<close>

type_synonym response = "callback_ref \<times> string \<times> chat_request"

definition chat_response :: "chat_task \<Rightarrow> string \<Rightarrow> chat_request \<Rightarrow> response list \<Rightarrow> response list" where
  "chat_response t answer req calls = calls @ [(ct_callback t, answer, req)]"

text \<open>
  The client: its box pool, its task pool, and the callback invocations made so far.
\<close>

record chat_client =
  box_pool :: pool_state
  task_pool :: ChatTaskPool
  responses :: "response list"

definition ChatClient_init :: chat_client where
  "ChatClient_init = \<lparr>box_pool = ChatBoxPool_init, task_pool = [], responses = []\<rparr>"

definition request :: "string \<Rightarrow> ID \<Rightarrow> callback_ref \<Rightarrow> chat_client \<Rightarrow> chat_client" where
  "request question identifier cb c =
     (let req = \<lparr>req_question = question, req_identifier = identifier\<rparr>;
          t = \<lparr>ct_request = req, ct_callback = cb\<rparr>
      in c\<lparr>task_pool := add_task t (task_pool c)\<rparr>)"

text \<open>
  What one call of \<open>process\<close> reads from outside: the clock at each place that reads it
  (in \<open>purge\<close>, in the \<open>ChatBox\<close> constructor, in \<open>__prepare\<close>) and the backend's reply.
\<close>

record env =
  now_purge :: timestamp
  now_init :: timestamp
  now_ask :: timestamp
  reply :: "string option"

definition fallback_answer :: string where
  "fallback_answer =
     ''{'' @ [CHR 0x22] @ ''code'' @ [CHR 0x22] @ '': 404, '' @ [CHR 0x22] @ ''error'' @ [CHR 0x22]
       @ '': '' @ [CHR 0x22] @ ''No response, please try again later.'' @ [CHR 0x22] @ ''}''"

definition process :: "env \<Rightarrow> chat_client \<Rightarrow> bool \<times> chat_client" where
  "process e c =
     (case pop_task (task_pool c) of
        (None, q) \<Rightarrow>
          (let (ran_scan, p) = purge (now_purge e) (box_pool c)
           in (False, c\<lparr>box_pool := p, task_pool := q\<rparr>))
      | (Some t, q) \<Rightarrow>
          (let req = ct_request t;
               question = req_question req;
               identifier = req_identifier req;
               (box, p1) = get_box identifier (now_init e) (box_pool c)
           in case box of
                None \<Rightarrow> (False, c\<lparr>box_pool := p1, task_pool := q\<rparr>)
              | Some b \<Rightarrow>
                  (let (answer, p2) = ask b question (now_ask e) (reply e) p1;
                       answer1 = (case answer of None \<Rightarrow> fallback_answer | Some a \<Rightarrow> a)
                   in (True,
                       c\<lparr>box_pool := p2, task_pool := q,
                         responses := chat_response t answer1 req (responses c)\<rparr>))))"

text \<open>Calls on the client, in any order, and the tasks \<open>request\<close> has accepted.\<close>

datatype client_op =
    Request string ID callback_ref
  | Process env

fun client_step :: "client_op \<Rightarrow> chat_client \<Rightarrow> chat_client" where
  "client_step (Request question identifier cb) c = request question identifier cb c"
| "client_step (Process e) c = snd (process e c)"

fun client_run :: "client_op list \<Rightarrow> chat_client \<Rightarrow> chat_client" where
  "client_run [] c = c"
| "client_run (op # ops) c = client_run ops (client_step op c)"

fun accepted :: "client_op list \<Rightarrow> chat_task list" where
  "accepted [] = []"
| "accepted (Request question identifier cb # ops) =
     \<lparr>ct_request = \<lparr>req_question = question, req_identifier = identifier\<rparr>, ct_callback = cb\<rparr>
       # accepted ops"
| "accepted (Process e # ops) = accepted ops"

text \<open>The task a callback invocation answers.\<close>

definition answered_task :: "response \<Rightarrow> chat_task" where
  "answered_task r = (case r of (cb, answer, req) \<Rightarrow> \<lparr>ct_request = req, ct_callback = cb\<rparr>)"

section \<open>Example inputs\<close>

text \<open>
  Engines are named by strings. In \<open>example_search\<close>, \<open>A\<close> raises, \<open>B\<close> returns 0 and
  every other engine returns 200; in \<open>cancel_search\<close>, \<open>A\<close> returns -404, \<open>B\<close> the
  cancellation code and every other engine 200; in \<open>failing_search\<close>, \<open>A\<close> raises and
  every other engine returns -404; in \<open>mixed_search\<close>, \<open>A\<close> returns 0 and every other
  engine -404.
\<close>

definition example_search :: "string \<Rightarrow> search_result" where
  "example_search e =
     (if e = ''A'' then Raised else if e = ''B'' then Returned 0 else Returned 200)"

definition cancel_search :: "string \<Rightarrow> search_result" where
  "cancel_search e =
     (if e = ''A'' then Returned (- 404) else if e = ''B'' then Returned (- 205) else Returned 200)"

definition failing_search :: "string \<Rightarrow> search_result" where
  "failing_search e = (if e = ''A'' then Raised else Returned (- 404))"

definition mixed_search :: "string \<Rightarrow> search_result" where
  "mixed_search e = (if e = ''A'' then Returned 0 else Returned (- 404))"

definition example_agent :: "string \<Rightarrow> string" where
  "example_agent e = ''agent-'' @ e"

definition example_task :: task where
  "example_task = \<lparr>task_keywords = ''news'', task_request = 7\<rparr>"

text \<open>
  A pool in which \<open>alice\<close> got a box at time 0 and \<open>bob\<close> one at time 30000: box 0
  expires at 36000 and box 1 at 66000.
\<close>

definition example_pool :: pool_state where
  "example_pool = pool_run [GetBox ''alice'' 0, GetBox ''bob'' 30000] ChatBoxPool_init"

text \<open>
  Two requests of the same user followed by two calls of \<open>process\<close>; the backend
  answers the first question and gives nothing for the second.
\<close>

definition example_ops :: "client_op list" where
  "example_ops =
     [Request ''hi'' ''U1'' 1,
      Request ''there'' ''U1'' 2,
      Process \<lparr>now_purge = 10, now_init = 10, now_ask = 11, reply = Some ''hello''\<rparr>,
      Process \<lparr>now_purge = 20, now_init = 20, now_ask = 21, reply = None\<rparr>]"

text \<open>A client with three engines and two boxes.\<close>

definition example_actions :: "string action list" where
  "example_actions =
     [AddEngine ''A'', AddEngine ''B'', AddEngine ''C'', NewBox ''u1'', NewBox ''u2'']"

section \<open>Properties of the command history\<close>

lemma add_command_length: "length (add_command c w s g h) = Suc (length h)"
  by (simp add: add_command_def)

lemma add_commands_append:
  "add_commands calls h =
     h @ map (\<lambda>(c, w, s, g). \<lparr>sender = s, group_h = g, when_h = w, cmd = c\<rparr>) calls"
  by (induction calls h rule: add_commands.induct) (simp_all add: add_command_def)

lemma add_commands_length: "length (commands (add_commands calls h)) = length h + length calls"
  by (simp add: add_commands_append commands_def)

text \<open>
  C1 (the history holds at most \<open>MAX_LENGTH = 50\<close> entries, the oldest being evicted
  first). \<open>add_command\<close> only appends and never reads \<open>MAX_LENGTH\<close>: after 51 calls on
  an empty history, made at the times 0, 1, ..., 50, the history holds 51 entries,
  more than \<open>MAX_LENGTH\<close>, and its first entry is still the oldest one.
\<close>

theorem history_grows_past_MAX_LENGTH:
  "length (commands (add_commands (map (\<lambda>n. (''q'', real n, ''user'', None)) [0..<51])
      HistoryManager_init)) = 51
   \<and> MAX_LENGTH < 51
   \<and> when_h (hd (commands (add_commands (map (\<lambda>n. (''q'', real n, ''user'', None)) [0..<51])
      HistoryManager_init))) = 0"
proof -
  have "[0..<51] = 0 # [Suc 0..<51]"
    by (rule upt_conv_Cons) simp
  then show ?thesis
    by (simp add: add_commands_append commands_def HistoryManager_init_def MAX_LENGTH_def
        del: upt_Suc)
qed

section \<open>Properties of the failover dispatch\<close>

subsection \<open>The loop\<close>

text \<open>
  While the engines from \<open>index\<close> up to \<open>k\<close> neither succeed nor cancel, the loop moves
  from \<open>index\<close> to \<open>k\<close>, counting the negative codes and recording the calls.
\<close>

lemma search_loop_pass:
  "k \<le> length xs \<Longrightarrow> index \<le> k \<Longrightarrow>
   (\<forall>j. index \<le> j \<and> j < k \<longrightarrow> \<not> succeeds search (xs ! j) \<and> \<not> cancels search (xs ! j)) \<Longrightarrow>
   search_loop search agent xs failed index evs =
   search_loop search agent xs
     (failed + length (filter (\<lambda>e. code_of (search e) < 0) (take (k - index) (drop index xs))))
     k
     (evs @ concat (map (pass_events search agent) (take (k - index) (drop index xs))))"
proof (induction "k - index" arbitrary: index failed evs)
  case 0
  then show ?case by simp
next
  case (Suc n)
  then have lt: "index < k" and len: "index < length xs" by auto
  have here: "\<not> succeeds search (xs ! index)" "\<not> cancels search (xs ! index)"
    using Suc.prems(3) lt by auto
  have dr: "drop index xs = xs ! index # drop (Suc index) xs"
    using len by (simp add: Cons_nth_drop_Suc)
  have km: "k - index = Suc (k - Suc index)" using lt by simp
  have IH: "search_loop search agent xs f (Suc index) ev =
     search_loop search agent xs
       (f + length (filter (\<lambda>e. code_of (search e) < 0) (take (k - Suc index) (drop (Suc index) xs))))
       k
       (ev @ concat (map (pass_events search agent) (take (k - Suc index) (drop (Suc index) xs))))"
    for f ev
    using Suc.hyps(1)[of "Suc index" f ev] Suc.hyps(2) Suc.prems lt by auto
  show ?case
  proof (cases "code_of (search (xs ! index)) < 0")
    case True
    have "search_loop search agent xs failed index evs =
          search_loop search agent xs (failed + 1) (Suc index)
            (evs @ [EngineSearch (xs ! index)] @ [ReportFailure service (agent (xs ! index))])"
      using here True len
      by (subst search_loop.simps) (simp add: Let_def succeeds_def cancels_def)
    then show ?thesis
      using True by (simp add: IH dr km pass_events_def)
  next
    case False
    have "search_loop search agent xs failed index evs =
          search_loop search agent xs failed (Suc index) (evs @ [EngineSearch (xs ! index)])"
      using here False len
      by (subst search_loop.simps) (simp add: Let_def succeeds_def cancels_def)
    then show ?thesis
      using False by (simp add: IH dr km pass_events_def)
  qed
qed

lemma search_loop_success:
  "i < length xs \<Longrightarrow> succeeds search (xs ! i) \<Longrightarrow>
   search_loop search agent xs f i evs =
   LoopDone f i (evs @ [EngineSearch (xs ! i), ReportSuccess service (agent (xs ! i))])"
  by (subst search_loop.simps) (simp add: Let_def succeeds_def)

lemma search_loop_cancel:
  "i < length xs \<Longrightarrow> cancels search (xs ! i) \<Longrightarrow>
   search_loop search agent xs f i evs = Cancelled (evs @ [EngineSearch (xs ! i)])"
  by (subst search_loop.simps) (simp add: Let_def cancels_def CANCELLED_CODE_def)

lemma search_loop_end:
  "search_loop search agent xs f (length xs) evs = LoopDone f (length xs) evs"
  by (subst search_loop.simps) simp

lemma loop_first_success:
  assumes "i < length xs"
    and "\<forall>j<i. \<not> succeeds search (xs ! j) \<and> \<not> cancels search (xs ! j)"
    and "succeeds search (xs ! i)"
  shows "search_loop search agent xs 0 0 [] =
     LoopDone (length (filter (\<lambda>e. code_of (search e) < 0) (take i xs))) i
       (concat (map (pass_events search agent) (take i xs))
          @ [EngineSearch (xs ! i), ReportSuccess service (agent (xs ! i))])"
  using search_loop_pass[of i xs 0 search agent 0 "[]"] assms
  by (simp add: search_loop_success)

lemma loop_cancelled:
  assumes "i < length xs"
    and "\<forall>j<i. \<not> succeeds search (xs ! j) \<and> \<not> cancels search (xs ! j)"
    and "cancels search (xs ! i)"
  shows "search_loop search agent xs 0 0 [] =
     Cancelled (concat (map (pass_events search agent) (take i xs)) @ [EngineSearch (xs ! i)])"
  using search_loop_pass[of i xs 0 search agent 0 "[]"] assms
  by (simp add: search_loop_cancel)

lemma loop_exhausted:
  assumes "\<forall>e\<in>set xs. \<not> succeeds search e \<and> \<not> cancels search e"
  shows "search_loop search agent xs 0 0 [] =
     LoopDone (length (filter (\<lambda>e. code_of (search e) < 0) xs)) (length xs)
       (concat (map (pass_events search agent) xs))"
  using search_loop_pass[of "length xs" xs 0 search agent 0 "[]"] assms
  by (simp add: search_loop_end)

subsection \<open>What the trace of passed engines holds\<close>

lemma searched_append: "searched (xs @ ys) = searched xs @ searched ys"
  by (induction xs rule: searched.induct) auto

lemma searched_pass: "searched (concat (map (pass_events search agent) xs)) = xs"
  by (induction xs) (auto simp: pass_events_def)

lemma crash_not_in_pass: "ReportCrash s \<notin> set (concat (map (pass_events search agent) xs))"
  by (induction xs) (auto simp: pass_events_def)

lemma respond_not_in_pass:
  "RespondMarkdown t r \<notin> set (concat (map (pass_events search agent) xs))"
  by (induction xs) (auto simp: pass_events_def)

lemma fails_all_filter:
  "\<forall>e\<in>set xs. fails search e \<Longrightarrow> filter (\<lambda>e. code_of (search e) < 0) xs = xs"
  by (induction xs) (auto simp: fails_def)

lemma foldl_append_lines: "foldl (\<lambda>t his. t @ f his) t0 hs = t0 @ concat (map f hs)"
  by (induction hs arbitrary: t0) simp_all

lemma respond_204_text_lines:
  "respond_204_text (Some hs) kw =
     ''No contents for **'' @ [CHR 0x22] @ kw @ [CHR 0x22]
       @ ''**, you can try the following keywords:'' @ [CHR 0x0A] @ [CHR 0x0A] @ ''----'' @ [CHR 0x0A]
       @ concat (map suggestion_line hs)
       @ [CHR 0x0A] @ ''You can also input this command to scan TV channels:'' @ [CHR 0x0A]
       @ [CHR 0x0A] @ ''- **TV channels**''"
proof -
  have f: "foldl (\<lambda>t his. t @ ''- **'' @ his @ ''**'' @ [CHR 0x0A]) t0 ks
             = t0 @ concat (map suggestion_line ks)" for t0 ks
    unfolding suggestion_line_def by (rule foldl_append_lines)
  show ?thesis
    unfolding respond_204_text_def Let_def f by simp
qed

subsection \<open>Promotion of the engine that succeeded\<close>

text \<open>
  C2. The engines before index \<open>i\<close> neither succeed nor cancel and the engine at \<open>i\<close>
  succeeds (so no cancellation is observed, and \<open>i\<close> is where the loop breaks). Then
  the dispatch returns true. For \<open>i = 0\<close> the list is left as it was; for \<open>0 < i\<close> the
  list afterwards is the engine of index \<open>i\<close> followed by all other engines in their
  old order.
\<close>

theorem search_promotes_successful_engine:
  assumes "i < length engines"
    and "\<forall>j<i. \<not> succeeds search (engines ! j) \<and> \<not> cancels search (engines ! j)"
    and "succeeds search (engines ! i)"
  shows "fst (SearchBox_search search agent history tsk engines) = True
       \<and> fst (snd (SearchBox_search search agent history tsk engines)) =
           (if i = 0 then engines
            else engines ! i # (take i engines @ drop (Suc i) engines))"
proof -
  let ?f = "length (filter (\<lambda>e. code_of (search e) < 0) (take i engines))"
  have "?f \<le> length (take i engines)" by (rule length_filter_le)
  then have f: "?f \<noteq> length engines" using assms(1) by simp
  note L = loop_first_success[OF assms, of agent]
  show ?thesis
    using assms(1) f
    by (auto simp: SearchBox_search_def L Let_def list_pop_def list_insert0_def)
qed

theorem search_promotes_successful_engine_witness:
  "fst (SearchBox_search example_search example_agent None example_task [''A'', ''B'', ''C''])
     = True
   \<and> fst (snd (SearchBox_search example_search example_agent None example_task
        [''A'', ''B'', ''C''])) = [''C'', ''A'', ''B'']"
proof -
  have h1: "2 < length [''A'', ''B'', ''C'']" by simp
  have h2: "\<forall>j<2. \<not> succeeds example_search ([''A'', ''B'', ''C''] ! j)
                 \<and> \<not> cancels example_search ([''A'', ''B'', ''C''] ! j)"
    by (auto simp: less_Suc_eq numeral_2_eq_2 succeeds_def cancels_def example_search_def
        code_of_def CANCELLED_CODE_def)
  have h3: "succeeds example_search ([''A'', ''B'', ''C''] ! 2)"
    by (simp add: succeeds_def example_search_def code_of_def)
  show ?thesis
    using search_promotes_successful_engine[OF h1 h2 h3, of example_agent None example_task]
    by simp
qed

subsection \<open>Cancellation\<close>

text \<open>
  C3. The engines before index \<open>i\<close> neither succeed nor cancel (so the engine at \<open>i\<close>
  is called) and the engine at \<open>i\<close> returns the cancellation code. Then the dispatch
  returns false with the engine list as it was; its effects are those of the engines
  before \<open>i\<close> followed by the call of engine \<open>i\<close> and nothing else, so nothing is
  reported to the monitor for the cancelled call; the engines called are exactly those
  of the indices up to \<open>i\<close>; and no crash is reported.
\<close>

theorem search_cancelled_stops_at_once:
  assumes "i < length engines"
    and "\<forall>j<i. \<not> succeeds search (engines ! j) \<and> \<not> cancels search (engines ! j)"
    and "cancels search (engines ! i)"
  shows "SearchBox_search search agent history tsk engines =
           (False, engines,
            concat (map (pass_events search agent) (take i engines)) @ [EngineSearch (engines ! i)])
       \<and> searched (snd (snd (SearchBox_search search agent history tsk engines)))
           = take (Suc i) engines
       \<and> ReportCrash service \<notin> set (snd (snd (SearchBox_search search agent history tsk engines)))"
proof -
  note L = loop_cancelled[OF assms, of agent]
  have A: "SearchBox_search search agent history tsk engines =
           (False, engines,
            concat (map (pass_events search agent) (take i engines)) @ [EngineSearch (engines ! i)])"
    using assms(1) by (auto simp: SearchBox_search_def L Let_def)
  have B: "searched (snd (snd (SearchBox_search search agent history tsk engines)))
             = take (Suc i) engines"
    using assms(1) by (simp add: A searched_append searched_pass take_Suc_conv_app_nth)
  have C: "ReportCrash service \<notin> set (snd (snd (SearchBox_search search agent history tsk engines)))"
    using crash_not_in_pass[of service search agent "take i engines"] by (simp add: A)
  show ?thesis using A B C by blast
qed

theorem search_cancelled_stops_at_once_witness:
  "SearchBox_search cancel_search example_agent None example_task [''A'', ''B'', ''C''] =
     (False, [''A'', ''B'', ''C''],
      [EngineSearch ''A'', ReportFailure ''SearchBox'' ''agent-A'', EngineSearch ''B''])
   \<and> searched (snd (snd (SearchBox_search cancel_search example_agent None example_task
        [''A'', ''B'', ''C'']))) = [''A'', ''B'']"
proof -
  have h1: "1 < length [''A'', ''B'', ''C'']" by simp
  have h2: "\<forall>j<1. \<not> succeeds cancel_search ([''A'', ''B'', ''C''] ! j)
                 \<and> \<not> cancels cancel_search ([''A'', ''B'', ''C''] ! j)"
    by (simp add: succeeds_def cancels_def cancel_search_def code_of_def CANCELLED_CODE_def)
  have h3: "cancels cancel_search ([''A'', ''B'', ''C''] ! 1)"
    by (simp add: cancels_def cancel_search_def code_of_def CANCELLED_CODE_def)
  show ?thesis
    using search_cancelled_stops_at_once[OF h1 h2 h3, of example_agent None example_task]
    by (simp add: pass_events_def cancel_search_def code_of_def service_def example_agent_def)
qed

subsection \<open>All engines fail\<close>

text \<open>
  C4. The list is not empty and every engine returns a negative code other than the
  cancellation code, or raises (which counts as the code \<open>-500\<close>). Then the dispatch
  returns false and reports a crash for the service exactly once.
\<close>

theorem search_all_failed_reports_crash_once:
  assumes "engines \<noteq> []" and "\<forall>e\<in>set engines. fails search e"
  shows "fst (SearchBox_search search agent history tsk engines) = False
       \<and> count_list (snd (snd (SearchBox_search search agent history tsk engines)))
           (ReportCrash service) = 1"
proof -
  have p: "\<forall>e\<in>set engines. \<not> succeeds search e \<and> \<not> cancels search e"
    using assms(2) by (auto simp: fails_def succeeds_def cancels_def)
  note L = loop_exhausted[OF p, of agent]
  have A: "SearchBox_search search agent history tsk engines =
      (False, engines, concat (map (pass_events search agent) engines)
         @ [respond_204 history (task_keywords tsk) (task_request tsk), ReportCrash service])"
    using assms(1) by (simp add: SearchBox_search_def L Let_def fails_all_filter[OF assms(2)])
  have "count_list (concat (map (pass_events search agent) engines)) (ReportCrash service) = 0"
    using crash_not_in_pass by (simp add: count_list_0_iff)
  then have "count_list (snd (snd (SearchBox_search search agent history tsk engines)))
      (ReportCrash service) = 1"
    by (simp add: A respond_204_def)
  then show ?thesis by (simp add: A)
qed

theorem search_all_failed_reports_crash_once_witness:
  "fst (SearchBox_search failing_search example_agent None example_task [''A'', ''B'', ''C''])
     = False
   \<and> count_list (snd (snd (SearchBox_search failing_search example_agent None example_task
        [''A'', ''B'', ''C'']))) (ReportCrash service) = 1"
proof -
  have h1: "[''A'', ''B'', ''C''] \<noteq> []" by simp
  have h2: "\<forall>e\<in>set [''A'', ''B'', ''C'']. fails failing_search e"
    by (simp add: fails_def failing_search_def code_of_def CANCELLED_CODE_def)
  show ?thesis
    using search_all_failed_reports_crash_once[OF h1 h2, of example_agent None example_task]
    by simp
qed

subsection \<open>No result\<close>

text \<open>
  C5. The list is not empty and no engine succeeds or cancels, so the loop runs over
  all engines; how many of them fail does not matter. Then \<open>_respond_204\<close> is called
  exactly once, with the task's keywords and request, and its text holds one
  suggestion line for each keyword of the history.
\<close>

theorem search_without_result_responds_204:
  assumes "engines \<noteq> []"
    and "\<forall>e\<in>set engines. \<not> succeeds search e \<and> \<not> cancels search e"
  shows "count_list (snd (snd (SearchBox_search search agent history tsk engines)))
           (RespondMarkdown (respond_204_text history (task_keywords tsk)) (task_request tsk)) = 1
       \<and> (\<forall>hs. history = Some hs \<longrightarrow>
            (\<exists>before after. respond_204_text history (task_keywords tsk)
               = before @ concat (map suggestion_line hs) @ after))"
proof -
  note L = loop_exhausted[OF assms(2), of agent]
  let ?r = "RespondMarkdown (respond_204_text history (task_keywords tsk)) (task_request tsk)"
  have z: "count_list (concat (map (pass_events search agent) engines)) ?r = 0"
    using respond_not_in_pass by (simp add: count_list_0_iff)
  have A: "count_list (snd (snd (SearchBox_search search agent history tsk engines))) ?r = 1"
    using assms(1) z
    by (simp add: SearchBox_search_def L Let_def respond_204_def list_pop_def list_insert0_def)
  have B: "\<exists>before after. respond_204_text (Some hs) kw
               = before @ concat (map suggestion_line hs) @ after" for hs kw
  proof -
    have "respond_204_text (Some hs) kw =
        (''No contents for **'' @ [CHR 0x22] @ kw @ [CHR 0x22]
           @ ''**, you can try the following keywords:'' @ [CHR 0x0A] @ [CHR 0x0A] @ ''----'' @ [CHR 0x0A])
        @ concat (map suggestion_line hs)
        @ ([CHR 0x0A] @ ''You can also input this command to scan TV channels:'' @ [CHR 0x0A]
           @ [CHR 0x0A] @ ''- **TV channels**'')"
      by (simp add: respond_204_text_lines)
    then show ?thesis by blast
  qed
  show ?thesis using A B by blast
qed

theorem search_without_result_responds_204_witness:
  "count_list (snd (snd (SearchBox_search mixed_search example_agent (Some [''film'', ''tv''])
        example_task [''A'', ''B''])))
     (RespondMarkdown (respond_204_text (Some [''film'', ''tv'']) ''news'') 7) = 1
   \<and> fst (SearchBox_search mixed_search example_agent (Some [''film'', ''tv''])
        example_task [''A'', ''B'']) = True"
proof -
  have h1: "[''A'', ''B''] \<noteq> []" by simp
  have h2: "\<forall>e\<in>set [''A'', ''B'']. \<not> succeeds mixed_search e \<and> \<not> cancels mixed_search e"
    by (simp add: succeeds_def cancels_def mixed_search_def code_of_def CANCELLED_CODE_def)
  have L: "search_loop mixed_search example_agent [''A'', ''B''] 0 0 [] =
     LoopDone (length (filter (\<lambda>e. code_of (mixed_search e) < 0) [''A'', ''B''])) (length [''A'', ''B''])
       (concat (map (pass_events mixed_search example_agent) [''A'', ''B'']))"
    by (rule loop_exhausted[OF h2])
  have t: "fst (SearchBox_search mixed_search example_agent (Some [''film'', ''tv''])
        example_task [''A'', ''B'']) = True"
    by (simp add: SearchBox_search_def L Let_def mixed_search_def code_of_def)
  show ?thesis
    using search_without_result_responds_204[OF h1 h2,
        of example_agent "Some [''film'', ''tv'']" example_task] t
    by (simp add: example_task_def)
qed

section \<open>Properties of the session pool\<close>

subsection \<open>The two outcomes of \<open>purge\<close>\<close>

lemma purge_skip: "now < next_purge_time st \<Longrightarrow> purge now st = (False, st)"
  by (simp add: purge_def)

lemma purge_scan:
  "\<not> now < next_purge_time st \<Longrightarrow>
   purge now st =
     (True, st\<lparr>next_purge_time := now + 60,
               pool_boxes := {box \<in> pool_boxes st. \<not> box_expired st box < now}\<rparr>)"
proof -
  have "pool_boxes st - {box \<in> pool_boxes st. box_expired st box < now}
          = {box \<in> pool_boxes st. \<not> box_expired st box < now}"
    by auto
  then show ?thesis if "\<not> now < next_purge_time st"
    using that by (simp add: purge_def Let_def is_expired_def)
qed

lemma get_box_next_purge_time: "next_purge_time (snd (get_box identifier now st)) = next_purge_time st"
  by (simp add: get_box_def new_chat_box_def ChatBox_init_def split: option.splits)

lemma ask_next_purge_time: "next_purge_time (snd (ask box question now r st)) = next_purge_time st"
  by (simp add: ask_def prepare_def)

lemma pool_step_deadline_mono: "next_purge_time st \<le> next_purge_time (pool_step c st)"
proof (cases c)
  case (GetBox user now)
  then show ?thesis by (simp add: get_box_next_purge_time)
next
  case (Ask box question now r)
  then show ?thesis by (simp add: ask_next_purge_time)
next
  case (Purge now)
  then show ?thesis by (cases "now < next_purge_time st") (simp_all add: purge_skip purge_scan)
qed

lemma pool_run_deadline_mono: "next_purge_time st \<le> next_purge_time (pool_run ops st)"
proof (induction ops arbitrary: st)
  case Nil
  then show ?case by simp
next
  case (Cons c ops)
  have "next_purge_time st \<le> next_purge_time (pool_step c st)"
    by (rule pool_step_deadline_mono)
  also have "\<dots> \<le> next_purge_time (pool_run ops (pool_step c st))"
    by (rule Cons.IH)
  finally show ?case by simp
qed

text \<open>
  C7. A call of \<open>purge\<close> before the deadline returns false and leaves the pool as it
  was. A call at or after the deadline returns true, sets the deadline to \<open>now + 60\<close>
  and keeps in the live set exactly the boxes that are not expired at \<open>now\<close>, changing
  nothing else. After a call that scanned at \<open>now\<close>, a call at a time before
  \<open>now + 60\<close> returns false and changes nothing; and whatever is called on the pool in
  between, a later call of \<open>purge\<close> that scans is made at \<open>now + 60\<close> or later.
\<close>

theorem purge_rate_limited:
  "(now < next_purge_time st \<longrightarrow> purge now st = (False, st))
   \<and> (\<not> now < next_purge_time st \<longrightarrow>
        purge now st =
          (True, st\<lparr>next_purge_time := now + 60,
                    pool_boxes := {box \<in> pool_boxes st. \<not> now > box_expired st box}\<rparr>))
   \<and> (\<not> now < next_purge_time st \<and> now2 < now + 60 \<longrightarrow>
        purge now2 (snd (purge now st)) = (False, snd (purge now st)))
   \<and> (\<not> now < next_purge_time st \<and> fst (purge now2 (pool_run ops (snd (purge now st)))) \<longrightarrow>
        now + 60 \<le> now2)"
proof (intro conjI impI)
  show "purge now st = (False, st)" if "now < next_purge_time st"
    using that by (rule purge_skip)
next
  show "purge now st =
          (True, st\<lparr>next_purge_time := now + 60,
                    pool_boxes := {box \<in> pool_boxes st. \<not> now > box_expired st box}\<rparr>)"
    if "\<not> now < next_purge_time st"
    using that by (simp add: purge_scan)
next
  assume a: "\<not> now < next_purge_time st \<and> now2 < now + 60"
  then have "now2 < next_purge_time (snd (purge now st))" by (simp add: purge_scan)
  then show "purge now2 (snd (purge now st)) = (False, snd (purge now st))"
    by (rule purge_skip)
next
  assume a: "\<not> now < next_purge_time st \<and> fst (purge now2 (pool_run ops (snd (purge now st))))"
  let ?st2 = "pool_run ops (snd (purge now st))"
  have "now + 60 = next_purge_time (snd (purge now st))" using a by (simp add: purge_scan)
  also have "\<dots> \<le> next_purge_time ?st2" by (rule pool_run_deadline_mono)
  finally have d: "now + 60 \<le> next_purge_time ?st2" .
  have "\<not> now2 < next_purge_time ?st2"
  proof
    assume "now2 < next_purge_time ?st2"
    then have "purge now2 ?st2 = (False, ?st2)" by (rule purge_skip)
    then show False using a by simp
  qed
  then show "now + 60 \<le> now2" using d by simp
qed

lemma example_pool_fields:
  "pool_boxes example_pool = {0, 1}"
  "box_expired example_pool 0 = 36000"
  "box_expired example_pool (Suc 0) = 66000"
  "next_purge_time example_pool = 0"
  "pool_map example_pool ''alice'' = Some 0"
  "pool_map example_pool ''bob'' = Some 1"
  "next_box example_pool = 2"
  by (auto simp: example_pool_def get_box_def weak_get_def new_chat_box_def ChatBox_init_def
      ChatBoxPool_init_def EXPIRES_def)

theorem purge_rate_limited_witness:
  "fst (purge 40000 example_pool) = True
   \<and> pool_boxes (snd (purge 40000 example_pool)) = {1}
   \<and> next_purge_time (snd (purge 40000 example_pool)) = 40060
   \<and> purge 40030 (snd (purge 40000 example_pool)) = (False, snd (purge 40000 example_pool))
   \<and> purge (- 1) example_pool = (False, example_pool)"
proof -
  note T = purge_rate_limited[of 40000 example_pool 40030 "[]"]
  note T' = purge_rate_limited[of "- 1" example_pool 0 "[]"]
  have e: "\<not> (40000::real) < next_purge_time example_pool"
    by (simp add: example_pool_fields)
  have s: "(- 1::real) < next_purge_time example_pool"
    by (simp add: example_pool_fields)
  have l: "(40030::real) < 40000 + 60" by simp
  have b: "{box \<in> pool_boxes example_pool. \<not> 40000 > box_expired example_pool box} = {1}"
    by (auto simp: example_pool_fields)
  have 1: "purge 40000 example_pool =
      (True, example_pool\<lparr>next_purge_time := 40000 + 60,
         pool_boxes := {box \<in> pool_boxes example_pool. \<not> 40000 > box_expired example_pool box}\<rparr>)"
    using T e by blast
  have 2: "purge 40030 (snd (purge 40000 example_pool)) = (False, snd (purge 40000 example_pool))"
    using T e l by blast
  have 3: "purge (- 1) example_pool = (False, example_pool)"
    using T' s by blast
  show ?thesis
  proof (intro conjI)
    show "fst (purge 40000 example_pool) = True" by (simp add: 1)
    show "pool_boxes (snd (purge 40000 example_pool)) = {1}" using b by (simp add: 1)
    show "next_purge_time (snd (purge 40000 example_pool)) = 40060" by (simp add: 1)
    show "purge 40030 (snd (purge 40000 example_pool)) = (False, snd (purge 40000 example_pool))"
      by (rule 2)
    show "purge (- 1) example_pool = (False, example_pool)" by (rule 3)
  qed
qed

subsection \<open>Refreshing the expiry\<close>

text \<open>
  C8. For every box, question, clock reading and backend reply (an answer or none),
  \<open>ask\<close> leaves the box's expiry at \<open>now + 36000\<close> and returns the reply as it is.
\<close>

theorem ask_always_refreshes_expiry:
  "box_expired (snd (ask box question now r st)) box = now + 36000
   \<and> fst (ask box question now r st) = r"
  by (simp add: ask_def prepare_def EXPIRES_def)

theorem ask_always_refreshes_expiry_witness:
  "box_expired (snd (ask 0 ''hello'' 50000 None example_pool)) 0 = 86000
   \<and> box_expired (snd (ask 0 ''hello'' 50000 (Some ''hi'') example_pool)) 0 = 86000
   \<and> is_expired 0 50000 example_pool"
  using ask_always_refreshes_expiry[of 0 "''hello''" 50000 None example_pool]
    ask_always_refreshes_expiry[of 0 "''hello''" 50000 "Some ''hi''" example_pool]
  by (simp add: is_expired_def example_pool_fields)

subsection \<open>Looking a user's box up\<close>

lemma get_box_hit: "weak_get st user = Some box \<Longrightarrow> get_box user now st = (Some box, st)"
  by (simp add: get_box_def)

lemma get_box_miss:
  "weak_get st user = None \<Longrightarrow>
   get_box user now st =
     (Some (next_box st),
      st\<lparr>box_expired := (box_expired st)(next_box st := now + EXPIRES),
         next_box := Suc (next_box st),
         pool_map := (pool_map st)(user \<mapsto> next_box st),
         pool_boxes := insert (next_box st) (pool_boxes st)\<rparr>)"
  by (simp add: get_box_def new_chat_box_def ChatBox_init_def)

lemma weak_get_Some_iff:
  "weak_get st user = Some box \<longleftrightarrow> pool_map st user = Some box \<and> box \<in> pool_boxes st"
  by (auto simp: weak_get_def split: option.splits)

lemma weak_get_None_iff:
  "weak_get st user = None \<longleftrightarrow> (\<forall>box. pool_map st user = Some box \<longrightarrow> box \<notin> pool_boxes st)"
  by (auto simp: weak_get_def split: option.splits)

lemma pool_ok_init: "pool_ok ChatBoxPool_init"
  by (simp add: pool_ok_def ChatBoxPool_init_def)

lemma pool_ok_get_box: "pool_ok st \<Longrightarrow> pool_ok (snd (get_box user now st))"
proof (cases "weak_get st user")
  case None
  assume ok: "pool_ok st"
  have "ran ((pool_map st)(user \<mapsto> next_box st)) \<subseteq> insert (next_box st) (ran (pool_map st))"
    by (auto simp: ran_def)
  then show ?thesis
    using ok by (auto simp: get_box_miss[OF None] pool_ok_def less_Suc_eq)
next
  case (Some box)
  assume "pool_ok st"
  then show ?thesis by (simp add: get_box_hit[OF Some])
qed

lemma pool_ok_step: "pool_ok st \<Longrightarrow> pool_ok (pool_step c st)"
proof (cases c)
  case (GetBox user now)
  assume "pool_ok st"
  then show ?thesis using GetBox by (simp add: pool_ok_get_box)
next
  case (Ask box question now r)
  assume "pool_ok st"
  then show ?thesis using Ask by (simp add: pool_ok_def ask_def prepare_def)
next
  case (Purge now)
  assume "pool_ok st"
  then show ?thesis
    using Purge
    by (cases "now < next_purge_time st") (auto simp: purge_skip purge_scan pool_ok_def)
qed

lemma pool_ok_run: "pool_ok st \<Longrightarrow> pool_ok (pool_run ops st)"
  by (induction ops arbitrary: st) (simp_all add: pool_ok_step)

lemma holds_box_get_box:
  assumes "holds_box st user box"
  shows "holds_box (snd (get_box v now st)) user box"
proof (cases "weak_get st v")
  case (Some b)
  then show ?thesis using assms by (simp add: get_box_hit)
next
  case None
  show ?thesis
  proof (cases "v = user")
    case True
    then have "box \<notin> pool_boxes st"
      using None assms by (auto simp: weak_get_None_iff holds_box_def)
    then show ?thesis
      using assms by (auto simp: get_box_miss[OF None] holds_box_def)
  next
    case False
    then show ?thesis
      using assms by (auto simp: get_box_miss[OF None] holds_box_def)
  qed
qed

lemma holds_box_step: "holds_box st user box \<Longrightarrow> holds_box (pool_step c st) user box"
proof (cases c)
  case (GetBox v now)
  assume "holds_box st user box"
  then show ?thesis using GetBox by (simp add: holds_box_get_box)
next
  case (Ask b question now r)
  assume "holds_box st user box"
  then show ?thesis using Ask by (simp add: holds_box_def ask_def prepare_def)
next
  case (Purge now)
  assume "holds_box st user box"
  then show ?thesis
    using Purge
    by (cases "now < next_purge_time st") (auto simp: purge_skip purge_scan holds_box_def)
qed

lemma holds_box_run: "holds_box st user box \<Longrightarrow> holds_box (pool_run ops st) user box"
  by (induction ops arbitrary: st) (simp_all add: holds_box_step)

lemma get_box_establishes:
  assumes "pool_ok st" and "get_box user now st = (Some box, st1)"
  shows "holds_box st1 user box \<and> box \<in> pool_boxes st1 \<and> pool_ok st1"
proof (cases "weak_get st user")
  case None
  have "pool_ok st1" using pool_ok_get_box[OF assms(1), of user now] assms(2) by simp
  then show ?thesis
    using assms(2) by (auto simp: get_box_miss[OF None] holds_box_def)
next
  case (Some b)
  then have "b = box" "st1 = st" using assms(2) by (simp_all add: get_box_hit)
  then show ?thesis
    using Some assms(1) by (auto simp: weak_get_Some_iff holds_box_def pool_ok_def)
qed

text \<open>
  C9. Let \<open>get_box\<close> have returned \<open>box\<close> for \<open>user\<close>, and let any calls on the pool
  follow. If \<open>box\<close> is still in the live set, \<open>get_box\<close> for the same user returns
  \<open>box\<close> and leaves the pool as it was: no box is constructed, and the expiry of
  \<open>box\<close> plays no part. If instead a call of \<open>purge\<close> scans at a time at which \<open>box\<close>
  is expired, \<open>box\<close> leaves the live set, and the next \<open>get_box\<close> for the user returns
  a box with a reference that was never in use before, different from \<open>box\<close>, and puts
  it into the live set.
\<close>

theorem get_box_reuses_live_box:
  assumes "pool_ok st"
    and "get_box user t0 st = (Some box, st1)"
    and "st2 = pool_run ops st1"
  shows "(box \<in> pool_boxes st2 \<longrightarrow> get_box user t st2 = (Some box, st2))
       \<and> (box \<in> pool_boxes st2 \<and> \<not> tp < next_purge_time st2 \<and> is_expired box tp st2 \<longrightarrow>
            box \<notin> pool_boxes (snd (purge tp st2))
            \<and> fst (get_box user t (snd (purge tp st2))) = Some (next_box st2)
            \<and> next_box st2 \<noteq> box
            \<and> next_box st2 \<notin> pool_boxes st2
            \<and> pool_boxes (snd (get_box user t (snd (purge tp st2))))
                = insert (next_box st2) (pool_boxes (snd (purge tp st2)))
            \<and> next_box (snd (get_box user t (snd (purge tp st2)))) = Suc (next_box st2))"
proof -
  have est: "holds_box st1 user box" "pool_ok st1"
    using get_box_establishes[OF assms(1,2)] by simp_all
  have h: "holds_box st2 user box"
    unfolding assms(3) using est(1) by (rule holds_box_run)
  have ok: "pool_ok st2"
    unfolding assms(3) using est(2) by (rule pool_ok_run)
  have A: "get_box user t st2 = (Some box, st2)" if "box \<in> pool_boxes st2"
  proof -
    have "weak_get st2 user = Some box"
      using h that by (simp add: weak_get_Some_iff holds_box_def)
    then show ?thesis by (rule get_box_hit)
  qed
  have B: "box \<notin> pool_boxes (snd (purge tp st2))
            \<and> fst (get_box user t (snd (purge tp st2))) = Some (next_box st2)
            \<and> next_box st2 \<noteq> box
            \<and> next_box st2 \<notin> pool_boxes st2
            \<and> pool_boxes (snd (get_box user t (snd (purge tp st2))))
                = insert (next_box st2) (pool_boxes (snd (purge tp st2)))
            \<and> next_box (snd (get_box user t (snd (purge tp st2)))) = Suc (next_box st2)"
    if live: "box \<in> pool_boxes st2" and due: "\<not> tp < next_purge_time st2"
      and ex: "is_expired box tp st2"
  proof -
    let ?st3 = "snd (purge tp st2)"
    have p: "?st3 = st2\<lparr>next_purge_time := tp + 60,
               pool_boxes := {b \<in> pool_boxes st2. \<not> box_expired st2 b < tp}\<rparr>"
      using due by (simp add: purge_scan)
    have gone: "box \<notin> pool_boxes ?st3"
      using ex by (simp add: p is_expired_def)
    have "pool_map ?st3 user = Some box"
      using h live by (simp add: p holds_box_def)
    then have miss: "weak_get ?st3 user = None"
      using gone by (auto simp: weak_get_None_iff)
    have nb: "next_box ?st3 = next_box st2" by (simp add: p)
    have fresh: "next_box st2 \<notin> pool_boxes st2" "next_box st2 \<noteq> box"
      using ok h by (auto simp: pool_ok_def holds_box_def)
    show ?thesis
      using gone fresh by (simp add: get_box_miss[OF miss] nb)
  qed
  show ?thesis using A B by blast
qed

theorem get_box_reuses_live_box_witness:
  "get_box ''alice'' 50000 example_pool = (Some 0, example_pool)
   \<and> is_expired 0 50000 example_pool
   \<and> 0 \<notin> pool_boxes (snd (purge 40000 example_pool))
   \<and> fst (get_box ''alice'' 50000 (snd (purge 40000 example_pool))) = Some 2"
proof -
  let ?st1 = "snd (get_box ''alice'' 0 ChatBoxPool_init)"
  have h1: "pool_ok ChatBoxPool_init" by (rule pool_ok_init)
  have h2: "get_box ''alice'' 0 ChatBoxPool_init = (Some 0, ?st1)"
    by (simp add: get_box_def weak_get_def new_chat_box_def ChatBox_init_def ChatBoxPool_init_def)
  have h3: "example_pool = pool_run [GetBox ''bob'' 30000] ?st1"
    by (simp add: example_pool_def)
  note T = get_box_reuses_live_box[OF h1 h2 h3, of 50000 40000]
  have live: "0 \<in> pool_boxes example_pool" by (simp add: example_pool_fields)
  have due: "\<not> (40000::real) < next_purge_time example_pool" by (simp add: example_pool_fields)
  have ex: "is_expired 0 40000 example_pool" by (simp add: is_expired_def example_pool_fields)
  have ex2: "is_expired 0 50000 example_pool" by (simp add: is_expired_def example_pool_fields)
  have n: "next_box example_pool = 2" by (rule example_pool_fields)
  show ?thesis using T live due ex ex2 n by simp
qed

section \<open>Properties of the task queue and its worker\<close>

lemma get_box_returns_box: "\<exists>box st1. get_box user now st = (Some box, st1)"
  by (cases "weak_get st user") (simp_all add: get_box_hit get_box_miss)

lemma process_task:
  assumes "task_pool c = t # q"
  shows "fst (process e c) = True
       \<and> task_pool (snd (process e c)) = q
       \<and> responses (snd (process e c)) =
           responses c @ [(ct_callback t,
                           (case reply e of Some a \<Rightarrow> a | None \<Rightarrow> fallback_answer),
                           ct_request t)]"
proof -
  obtain box p1 where g: "get_box (req_identifier (ct_request t)) (now_init e) (box_pool c)
      = (Some box, p1)"
    using get_box_returns_box by blast
  show ?thesis
    using assms g
    by (simp add: process_def pop_task_def Let_def ask_def prepare_def chat_response_def
        split: option.splits)
qed

lemma process_idle:
  assumes "task_pool c = []"
  shows "fst (process e c) = False
       \<and> task_pool (snd (process e c)) = []
       \<and> responses (snd (process e c)) = responses c"
  using assms by (simp add: process_def pop_task_def Let_def split: prod.splits)

lemma client_step_accounts:
  "map answered_task (responses (client_step c st)) @ task_pool (client_step c st)
     = map answered_task (responses st) @ task_pool st @ accepted [c]"
proof (cases c)
  case (Request question user cb)
  then show ?thesis by (simp add: request_def add_task_def Let_def)
next
  case (Process e)
  show ?thesis
  proof (cases "task_pool st")
    case Nil
    then show ?thesis using Process process_idle[OF Nil, of e] by simp
  next
    case (Cons t q)
    then show ?thesis using Process process_task[OF Cons, of e] by (simp add: answered_task_def)
  qed
qed

lemma accepted_Cons: "accepted (c # ops) = accepted [c] @ accepted ops"
  by (cases c) simp_all

lemma client_run_accounts:
  "map answered_task (responses (client_run ops st)) @ task_pool (client_run ops st)
     = map answered_task (responses st) @ task_pool st @ accepted ops"
proof (induction ops arbitrary: st)
  case Nil
  then show ?case by simp
next
  case (Cons c ops)
  have "map answered_task (responses (client_run (c # ops) st)) @ task_pool (client_run (c # ops) st)
      = map answered_task (responses (client_step c st)) @ task_pool (client_step c st) @ accepted ops"
    using Cons.IH[of "client_step c st"] by simp
  also have "\<dots> = (map answered_task (responses st) @ task_pool st @ accepted [c]) @ accepted ops"
    using client_step_accounts[of c st] by simp
  finally show ?case
    using accepted_Cons[of c ops] by simp
qed

lemma process_drains:
  "task_pool (client_run (map Process es) st) = drop (length es) (task_pool st)"
proof (induction es arbitrary: st)
  case Nil
  then show ?case by simp
next
  case (Cons e es)
  show ?case
  proof (cases "task_pool st")
    case Nil
    then show ?thesis using Cons.IH[of "snd (process e st)"] process_idle[OF Nil, of e] by simp
  next
    case (Cons t q)
    then show ?thesis
      using Cons.IH[of "snd (process e st)"] process_task[OF Cons, of e] by simp
  qed
qed

text \<open>
  C6. Whatever calls of \<open>request\<close> and \<open>process\<close> are made on a new client, in any
  order, the tasks whose callback has been invoked, followed by the tasks still in the
  queue, are the accepted tasks in the order of their acceptance: no accepted task is
  lost and none is answered twice. A call of \<open>process\<close> on a queue that is not empty
  returns true, takes the task at the head and invokes its callback once, with the
  backend's answer, or with the fallback text when there is none, and with the task's
  request. So \<open>n\<close> calls of \<open>process\<close> take the first \<open>n\<close> tasks off the queue.
\<close>

theorem process_answers_each_accepted_task_once:
  "map answered_task (responses (client_run ops ChatClient_init))
       @ task_pool (client_run ops ChatClient_init) = accepted ops
   \<and> (\<forall>t q. task_pool c = t # q \<longrightarrow>
         fst (process e c) = True
         \<and> task_pool (snd (process e c)) = q
         \<and> responses (snd (process e c)) =
             responses c @ [(ct_callback t,
                             (case reply e of Some a \<Rightarrow> a | None \<Rightarrow> fallback_answer),
                             ct_request t)])
   \<and> task_pool (client_run (map Process es) c) = drop (length es) (task_pool c)"
proof (intro conjI allI impI)
  show "map answered_task (responses (client_run ops ChatClient_init))
       @ task_pool (client_run ops ChatClient_init) = accepted ops"
    using client_run_accounts[of ops ChatClient_init] by (simp add: ChatClient_init_def)
next
  fix t q
  assume a: "task_pool c = t # q"
  show "fst (process e c) = True" using process_task[OF a] by blast
  show "task_pool (snd (process e c)) = q" using process_task[OF a] by blast
  show "responses (snd (process e c)) =
             responses c @ [(ct_callback t,
                             (case reply e of Some a \<Rightarrow> a | None \<Rightarrow> fallback_answer),
                             ct_request t)]"
    using process_task[OF a] by blast
next
  show "task_pool (client_run (map Process es) c) = drop (length es) (task_pool c)"
    by (rule process_drains)
qed

lemma example_ops_run:
  "responses (client_run example_ops ChatClient_init) =
     [(1, ''hello'', \<lparr>req_question = ''hi'', req_identifier = ''U1''\<rparr>),
      (2, fallback_answer, \<lparr>req_question = ''there'', req_identifier = ''U1''\<rparr>)]"
  "task_pool (client_run example_ops ChatClient_init) = []"
  by (simp_all add: example_ops_def ChatClient_init_def request_def add_task_def process_def
      pop_task_def get_box_def weak_get_def new_chat_box_def ChatBox_init_def ask_def prepare_def
      chat_response_def ChatBoxPool_init_def Let_def)

theorem process_answers_each_accepted_task_once_witness:
  "responses (client_run example_ops ChatClient_init) =
     [(1, ''hello'', \<lparr>req_question = ''hi'', req_identifier = ''U1''\<rparr>),
      (2, fallback_answer, \<lparr>req_question = ''there'', req_identifier = ''U1''\<rparr>)]
   \<and> task_pool (client_run example_ops ChatClient_init) = []
   \<and> accepted example_ops =
       [\<lparr>ct_request = \<lparr>req_question = ''hi'', req_identifier = ''U1''\<rparr>, ct_callback = 1\<rparr>,
        \<lparr>ct_request = \<lparr>req_question = ''there'', req_identifier = ''U1''\<rparr>, ct_callback = 2\<rparr>]"
  using process_answers_each_accepted_task_once[of example_ops ChatClient_init
      "\<lparr>now_purge = 0, now_init = 0, now_ask = 0, reply = None\<rparr>" "[]"]
  by (simp add: example_ops_run answered_task_def)

section \<open>Properties of the engine lists of a client and its boxes\<close>

lemma box_search_frame:
  "r \<noteq> box_engines b \<Longrightarrow>
   cells (fst (snd (box_search search agent history tsk b st))) r = cells st r"
  by (simp add: box_search_def split: prod.splits)

lemma box_search_own:
  "cells (fst (snd (box_search search agent history tsk b st))) (box_engines b)
     = fst (snd (SearchBox_search search agent history tsk (cells st (box_engines b))))"
  by (simp add: box_search_def split: prod.splits)

lemma box_search_next_ref:
  "next_ref (fst (snd (box_search search agent history tsk b st))) = next_ref st"
  by (simp add: box_search_def split: prod.splits)

lemma new_box_copy:
  "box_engines (fst (new_box c user st)) = next_ref st
   \<and> cells (snd (new_box c user st)) (next_ref st) = cells st (client_engines c)
   \<and> (\<forall>r. r \<noteq> next_ref st \<longrightarrow> cells (snd (new_box c user st)) r = cells st r)
   \<and> next_ref (snd (new_box c user st)) = Suc (next_ref st)"
  by (simp add: new_box_def list_copy_def new_list_def)

lemma world_ok_init: "world_ok world_init"
  by (simp add: world_ok_def world_init_def SearchClient_init_def new_list_def)

lemma world_ok_step: "world_ok w \<Longrightarrow> world_ok (step agent a w)"
proof (cases a)
  case (AddEngine engine)
  assume "world_ok w"
  then show ?thesis using AddEngine by (simp add: world_ok_def add_engine_def)
next
  case (NewBox user)
  assume ok: "world_ok w"
  have n: "box_engines (fst (new_box (client w) user (store w))) = next_ref (store w)"
    "next_ref (snd (new_box (client w) user (store w))) = Suc (next_ref (store w))"
    using new_box_copy[of "client w" user "store w"] by simp_all
  show ?thesis
    using ok NewBox n
    by (auto simp: world_ok_def split: prod.splits)
next
  case (Dispatch k search history tsk)
  assume "world_ok w"
  then show ?thesis using Dispatch by (simp add: world_ok_def box_search_next_ref)
qed

lemma world_ok_run: "world_ok w \<Longrightarrow> world_ok (run agent acts w)"
  by (induction acts arbitrary: w) (simp_all add: world_ok_step)

text \<open>
  C10. Take any client state reached from a new client by adding engines, creating
  boxes and running dispatches. A box created now gets a list object of its own: its
  reference is not the client's and not that of any existing box, and the list holds
  what the client's list holds. A dispatch run by the box at position \<open>k\<close> leaves the
  client's list and the list of every box at another position as they were; only the
  list of box \<open>k\<close> becomes what \<open>_search\<close> makes of it.
\<close>

theorem dispatch_changes_only_own_engine_list:
  assumes "w = run agent acts world_init" and "k < length (boxes w)"
  shows "cells (fst (snd (box_search search agent history tsk (boxes w ! k) (store w))))
             (client_engines (client w))
           = cells (store w) (client_engines (client w))
       \<and> (\<forall>j < length (boxes w). j \<noteq> k \<longrightarrow>
            box_engines (boxes w ! j) \<noteq> box_engines (boxes w ! k)
            \<and> cells (fst (snd (box_search search agent history tsk (boxes w ! k) (store w))))
                  (box_engines (boxes w ! j))
                = cells (store w) (box_engines (boxes w ! j)))
       \<and> cells (fst (snd (box_search search agent history tsk (boxes w ! k) (store w))))
             (box_engines (boxes w ! k))
           = fst (snd (SearchBox_search search agent history tsk
                         (cells (store w) (box_engines (boxes w ! k)))))
       \<and> box_engines (fst (new_box (client w) user (store w))) \<noteq> client_engines (client w)
       \<and> (\<forall>j < length (boxes w).
            box_engines (fst (new_box (client w) user (store w))) \<noteq> box_engines (boxes w ! j))
       \<and> cells (snd (new_box (client w) user (store w)))
             (box_engines (fst (new_box (client w) user (store w))))
           = cells (store w) (client_engines (client w))"
proof -
  have ok: "world_ok w"
    unfolding assms(1) using world_ok_init by (rule world_ok_run)
  have d: "distinct (map box_engines (boxes w))"
    and c: "client_engines (client w) \<notin> set (map box_engines (boxes w))"
    and lt: "client_engines (client w) < next_ref (store w)"
    and blt: "\<forall>b \<in> set (boxes w). box_engines b < next_ref (store w)"
    using ok by (simp_all add: world_ok_def)
  have kk: "boxes w ! k \<in> set (boxes w)" using assms(2) by simp
  have ck: "client_engines (client w) \<noteq> box_engines (boxes w ! k)"
    using c kk by auto
  have dj: "box_engines (boxes w ! j) \<noteq> box_engines (boxes w ! k)"
    if "j < length (boxes w)" "j \<noteq> k" for j
    using d that assms(2) by (simp add: distinct_conv_nth)
  have fresh: "box_engines (boxes w ! j) \<noteq> next_ref (store w)" if "j < length (boxes w)" for j
    using blt that by (metis less_irrefl nth_mem)
  note nb = new_box_copy[of "client w" user "store w"]
  show ?thesis
  proof (intro conjI allI impI)
    show "cells (fst (snd (box_search search agent history tsk (boxes w ! k) (store w))))
             (client_engines (client w))
           = cells (store w) (client_engines (client w))"
      using ck by (rule box_search_frame)
  next
    fix j assume "j < length (boxes w)" "j \<noteq> k"
    then show "box_engines (boxes w ! j) \<noteq> box_engines (boxes w ! k)" by (rule dj)
  next
    fix j assume "j < length (boxes w)" "j \<noteq> k"
    then have "box_engines (boxes w ! j) \<noteq> box_engines (boxes w ! k)" by (rule dj)
    then show "cells (fst (snd (box_search search agent history tsk (boxes w ! k) (store w))))
                  (box_engines (boxes w ! j))
                = cells (store w) (box_engines (boxes w ! j))"
      by (rule box_search_frame)
  next
    show "cells (fst (snd (box_search search agent history tsk (boxes w ! k) (store w))))
             (box_engines (boxes w ! k))
           = fst (snd (SearchBox_search search agent history tsk
                         (cells (store w) (box_engines (boxes w ! k)))))"
      by (rule box_search_own)
  next
    show "box_engines (fst (new_box (client w) user (store w))) \<noteq> client_engines (client w)"
      using nb lt by simp
  next
    fix j assume "j < length (boxes w)"
    then show "box_engines (fst (new_box (client w) user (store w))) \<noteq> box_engines (boxes w ! j)"
      using nb fresh[of j] by simp
  next
    show "cells (snd (new_box (client w) user (store w)))
             (box_engines (fst (new_box (client w) user (store w))))
           = cells (store w) (client_engines (client w))"
      using nb by simp
  qed
qed

lemma example_world:
  "client_engines (client (run example_agent example_actions world_init)) = 0"
  "map box_engines (boxes (run example_agent example_actions world_init)) = [1, 2]"
  "cells (store (run example_agent example_actions world_init)) 0 = [''A'', ''B'', ''C'']"
  "cells (store (run example_agent example_actions world_init)) (Suc 0) = [''A'', ''B'', ''C'']"
  "cells (store (run example_agent example_actions world_init)) 2 = [''A'', ''B'', ''C'']"
  by (simp_all add: example_actions_def world_init_def SearchClient_init_def new_list_def
      add_engine_def new_box_def list_copy_def)

theorem dispatch_changes_only_own_engine_list_witness:
  "cells (fst (snd (box_search example_search example_agent None example_task
        (boxes (run example_agent example_actions world_init) ! 0)
        (store (run example_agent example_actions world_init))))) 0 = [''A'', ''B'', ''C'']
   \<and> cells (fst (snd (box_search example_search example_agent None example_task
        (boxes (run example_agent example_actions world_init) ! 0)
        (store (run example_agent example_actions world_init))))) 1 = [''C'', ''A'', ''B'']
   \<and> cells (fst (snd (box_search example_search example_agent None example_task
        (boxes (run example_agent example_actions world_init) ! 0)
        (store (run example_agent example_actions world_init))))) 2 = [''A'', ''B'', ''C'']"
proof -
  let ?w = "run example_agent example_actions world_init"
  have h1: "?w = run example_agent example_actions world_init" by (rule refl)
  have len: "length (boxes ?w) = 2"
    using example_world(2) by (metis length_map length_Cons list.size(3) numeral_2_eq_2)
  have h2: "0 < length (boxes ?w)" using len by simp
  have b0: "box_engines (boxes ?w ! 0) = 1" and b1: "box_engines (boxes ?w ! 1) = 2"
    using example_world(2) len by (metis nth_map nth_Cons_0 h2, metis nth_map nth_Cons_0 nth_Cons_Suc One_nat_def lessI numeral_2_eq_2)
  note T = dispatch_changes_only_own_engine_list[OF h1 h2, of example_search None example_task "''u3''"]
  have s: "fst (snd (SearchBox_search example_search example_agent None example_task
      [''A'', ''B'', ''C''])) = [''C'', ''A'', ''B'']"
    by (simp add: SearchBox_search_def search_loop.simps example_search_def code_of_def
        CANCELLED_CODE_def list_pop_def list_insert0_def Let_def)
  have j1: "(1::nat) < length (boxes ?w)" "(1::nat) \<noteq> 0" using len by simp_all
  have A: "cells (fst (snd (box_search example_search example_agent None example_task
        (boxes ?w ! 0) (store ?w)))) 0 = [''A'', ''B'', ''C'']"
    using T example_world(1,3) by simp
  have B: "cells (fst (snd (box_search example_search example_agent None example_task
        (boxes ?w ! 0) (store ?w)))) 1 = [''C'', ''A'', ''B'']"
    using T b0 example_world(4) s by simp
  have C: "cells (fst (snd (box_search example_search example_agent None example_task
        (boxes ?w ! 0) (store ?w)))) 2 = [''A'', ''B'', ''C'']"
    using T j1 b1 example_world(5) by auto
  show ?thesis using A B C by blast
qed

end
